theory Spec2Isabelle
  imports Complex_Main "HOL-Library.Word"
begin

section \<open>Binary64 values produced by the sampler\<close>

text \<open>
  The sampler converts two \<open>uint64_t\<close> values to \<open>double\<close> and divides them.  Both
  operations are IEEE 754 binary64 operations in the default rounding mode (round to
  nearest, ties to even).  All operands are conversions of unsigned integers, so no
  negative value arises and the sign is left out.  \<open>Fin m e\<close> is the finite value
  \<open>m * 2 ^ e\<close>; the quotient of a non-zero value by zero is \<open>Inf\<close>, and \<open>0.0 / 0.0\<close> is
  \<open>NaN\<close>.  Quotients of two converted 64-bit integers lie between \<open>2 ^ - 64\<close> and
  \<open>2 ^ 64\<close>, far inside the normal range of binary64, so the model has no overflow and
  no subnormal case.
\<close>

datatype double = NaN | Inf | Fin nat int

text \<open>The real number a finite double stands for.\<close>

fun dval :: "double \<Rightarrow> real option" where
  "dval NaN = None"
| "dval Inf = None"
| "dval (Fin m e) = Some (if 0 \<le> e then real m * 2 ^ nat e else real m / 2 ^ nat (- e))"

text \<open>Number of binary digits of a natural number.\<close>

fun bitlen :: "nat \<Rightarrow> nat" where
  "bitlen n = (if n = 0 then 0 else Suc (bitlen (n div 2)))"

declare bitlen.simps [simp del]

text \<open>
  \<open>rne_core N D\<close>: the integer nearest to \<open>N / D\<close>, the even one of the two when
  \<open>N / D\<close> lies half way.
\<close>

definition rne_core :: "nat \<Rightarrow> nat \<Rightarrow> nat" where
  "rne_core N D =
     (let q = N div D; r = N mod D
      in if D < 2 * r \<or> (2 * r = D \<and> q mod 2 = 1) then q + 1 else q)"

text \<open>A significand that was rounded up to \<open>2 ^ 53\<close> is renormalised.\<close>

definition norm53 :: "nat \<Rightarrow> int \<Rightarrow> double" where
  "norm53 m e = (if m = 2 ^ 53 then Fin (2 ^ 52) (e + 1) else Fin m e)"

text \<open>
  \<open>double(x)\<close> for \<open>uint64_t x\<close>: exact below \<open>2 ^ 53\<close>, otherwise rounded to 53
  significant bits.
\<close>

definition double_of_nat :: "nat \<Rightarrow> double" where
  "double_of_nat n =
     (let e = bitlen n - 53
      in norm53 (rne_core n (2 ^ e)) (int e))"

definition double_of_u64 :: "64 word \<Rightarrow> double" where
  "double_of_u64 x = double_of_nat (unat x)"

text \<open>The natural number \<open>double(n)\<close> stands for.\<close>

definition dnat :: "nat \<Rightarrow> nat" where
  "dnat n = rne_core n (2 ^ (bitlen n - 53)) * 2 ^ (bitlen n - 53)"

text \<open>
  \<open>rne53 a b\<close> for \<open>0 < a\<close> and \<open>0 < b\<close>: the quotient \<open>a / b\<close> rounded to 53 significant
  bits.  \<open>E\<close> is the exponent of the binade of \<open>a / b\<close>, that is
  \<open>2 ^ E \<le> a / b < 2 ^ (E + 1)\<close>.
\<close>

definition rne53 :: "nat \<Rightarrow> nat \<Rightarrow> double" where
  "rne53 a b =
     (let e0 = int (bitlen a) - int (bitlen b);
          E = (if b * 2 ^ nat e0 \<le> a * 2 ^ nat (- e0) then e0 else e0 - 1);
          s = 52 - E;
          N = a * 2 ^ nat s;
          D = b * 2 ^ nat (- s)
      in norm53 (rne_core N D) (- s))"

text \<open>The division operator of \<open>double\<close>.\<close>

fun fp_div :: "double \<Rightarrow> double \<Rightarrow> double" where
  "fp_div NaN y = NaN"
| "fp_div x NaN = NaN"
| "fp_div Inf Inf = NaN"
| "fp_div Inf (Fin m e) = Inf"
| "fp_div (Fin m e) Inf = Fin 0 0"
| "fp_div (Fin m1 e1) (Fin m2 e2) =
     (if m2 = 0 then (if m1 = 0 then NaN else Inf)
      else if m1 = 0 then Fin 0 0
      else rne53 (m1 * 2 ^ nat (e1 - e2)) (m2 * 2 ^ nat (e2 - e1)))"

section \<open>The sampler (sampler.cpp)\<close>

text \<open>
  Modelled from the spec: the struct \<open>cpusnap\<close> (its declaration in \<open>proc_reader.hpp\<close> is
  not among the sources).  The seven fields are the ones \<open>sample_cpu_usage\<close> reads; the
  spec gives each as a 64-bit unsigned counter, the type of the deltas in the code.
\<close>

record cpusnap =
  user_time :: "64 word"
  nice_time :: "64 word"
  system_kernel_time :: "64 word"
  idle_time :: "64 word"
  iowait_time :: "64 word"
  irq_time :: "64 word"
  softirq_time :: "64 word"

text \<open>
  \<open>sample_cpu_usage\<close>, with the results of its two calls of \<open>read_cpu\<close> as arguments
  (\<open>cpuatt\<close> the first reading, \<open>cpuatt1\<close> the one a second later; the sleep between
  the two readings does not enter the computation).  The eight locals are \<open>uint64_t\<close>,
  so every subtraction and the sum are taken modulo \<open>2 ^ 64\<close>.
\<close>

definition sample_cpu_usage :: "cpusnap \<Rightarrow> cpusnap \<Rightarrow> double" where
  "sample_cpu_usage cpuatt cpuatt1 =
     (let user_delta = user_time cpuatt1 - user_time cpuatt;
          nice_delta = nice_time cpuatt1 - nice_time cpuatt;
          system_delta = system_kernel_time cpuatt1 - system_kernel_time cpuatt;
          idle_delta = idle_time cpuatt1 - idle_time cpuatt;
          iowait_delta = iowait_time cpuatt1 - iowait_time cpuatt;
          irq_delta = irq_time cpuatt1 - irq_time cpuatt;
          softirq_delta = softirq_time cpuatt1 - softirq_time cpuatt;
          total_delta = user_delta + nice_delta + system_delta + idle_delta
                        + iowait_delta + irq_delta + softirq_delta
      in fp_div (double_of_u64 (total_delta - idle_delta)) (double_of_u64 total_delta))"


subsection \<open>The sampler in the words of the specification\<close>

text \<open>The seven counter fields, in the order of the sum in \<open>sample_cpu_usage\<close>.\<close>

definition counter_fields :: "(cpusnap \<Rightarrow> 64 word) list" where
  "counter_fields = [user_time, nice_time, system_kernel_time, idle_time, iowait_time, irq_time,
     softirq_time]"

text \<open>\<open>delta = B.field - A.field\<close>, an unsigned 64-bit subtraction.\<close>

definition delta :: "(cpusnap \<Rightarrow> 64 word) \<Rightarrow> cpusnap \<Rightarrow> cpusnap \<Rightarrow> 64 word" where
  "delta f a b = f b - f a"

text \<open>\<open>total = sum(all deltas)\<close>.\<close>

definition spec_total :: "cpusnap \<Rightarrow> cpusnap \<Rightarrow> 64 word" where
  "spec_total a b = sum_list (map (\<lambda>f. delta f a b) counter_fields)"

text \<open>\<open>idle_total = idle_delta + iowait_delta\<close>.\<close>

definition spec_idle_total :: "cpusnap \<Rightarrow> cpusnap \<Rightarrow> 64 word" where
  "spec_idle_total a b = delta idle_time a b + delta iowait_time a b"

text \<open>The utilization of the specification: \<open>(total - idle_total) / total\<close>.\<close>

definition spec_utilization :: "cpusnap \<Rightarrow> cpusnap \<Rightarrow> double" where
  "spec_utilization a b =
     fp_div (double_of_u64 (spec_total a b - spec_idle_total a b))
            (double_of_u64 (spec_total a b))"

definition all_deltas_zero :: "cpusnap \<Rightarrow> cpusnap \<Rightarrow> bool" where
  "all_deltas_zero a b = list_all (\<lambda>f. delta f a b = 0) counter_fields"

text \<open>No counter field of the second snapshot is below the one of the first.\<close>

definition nondecreasing :: "cpusnap \<Rightarrow> cpusnap \<Rightarrow> bool" where
  "nondecreasing a b = list_all (\<lambda>f. f a \<le> f b) counter_fields"

text \<open>The time that passed between two snapshots, as a natural number (no wrap-around).\<close>

definition elapsed :: "cpusnap \<Rightarrow> cpusnap \<Rightarrow> nat" where
  "elapsed a b = sum_list (map (\<lambda>f. unat (f b) - unat (f a)) counter_fields)"

text \<open>
  The sampler's arithmetic written out on natural numbers, with every reduction modulo
  \<open>2 ^ 64\<close> explicit: the delta of one field, the total of the seven deltas, and the
  numerator \<open>total - idle_delta\<close>.
\<close>

definition mod_delta :: "(cpusnap \<Rightarrow> 64 word) \<Rightarrow> cpusnap \<Rightarrow> cpusnap \<Rightarrow> nat" where
  "mod_delta f a b = (unat (f b) + 2 ^ 64 - unat (f a)) mod 2 ^ 64"

definition mod_total :: "cpusnap \<Rightarrow> cpusnap \<Rightarrow> nat" where
  "mod_total a b = sum_list (map (\<lambda>f. mod_delta f a b) counter_fields) mod 2 ^ 64"

definition mod_busy :: "cpusnap \<Rightarrow> cpusnap \<Rightarrow> nat" where
  "mod_busy a b = (mod_total a b + 2 ^ 64 - mod_delta idle_time a b) mod 2 ^ 64"

text \<open>A snapshot with the given user, idle and iowait counters, the other fields zero.\<close>

definition mk_snap :: "64 word \<Rightarrow> 64 word \<Rightarrow> 64 word \<Rightarrow> cpusnap" where
  "mk_snap u i w = \<lparr>user_time = u, nice_time = 0, system_kernel_time = 0, idle_time = i,
     iowait_time = w, irq_time = 0, softirq_time = 0\<rparr>"

section \<open>The sample queue\<close>

text \<open>
  Modelled from the spec: the class \<open>Samplequeue\<close> (\<open>queue.hpp\<close> is not among the sources).
  The state is the ordered sequence of buffered samples and the closed/open flag.
\<close>

record 's queue =
  items :: "'s list"
  closed :: bool

datatype queue_error = QueueClosedError

text \<open>
  A call that blocks does not complete in the state it is made in; \<open>PushBlocked\<close> and
  \<open>PopBlocked\<close> say so, and leave the queue as it is.
\<close>

datatype 's push_result = PushOk "'s queue" | PushBlocked | PushFailed queue_error

datatype 's pop_result = Popped 's "'s queue" | PopBlocked | NoMoreData

text \<open>Modelled from the spec: a newly constructed \<open>Samplequeue\<close> is empty and open.\<close>

definition new_queue :: "'s queue" where
  "new_queue = \<lparr>items = [], closed = False\<rparr>"

text \<open>
  Modelled from the spec: \<open>push\<close> of \<open>Samplequeue\<close>, which fails with \<open>QueueClosedError\<close>
  after \<open>close()\<close>, blocks while the queue is at capacity \<open>cap\<close>, and appends otherwise.
\<close>

definition push :: "nat \<Rightarrow> 's queue \<Rightarrow> 's \<Rightarrow> 's push_result" where
  "push cap q x =
     (if closed q then PushFailed QueueClosedError
      else if cap \<le> length (items q) then PushBlocked
      else PushOk (q\<lparr>items := items q @ [x]\<rparr>))"

text \<open>
  Modelled from the spec: \<open>pop\<close> of \<open>Samplequeue\<close>, which returns the oldest buffered
  sample, blocks while the queue is empty and open, and returns the sentinel "no more
  data" once the queue is closed and empty.
\<close>

definition pop :: "'s queue \<Rightarrow> 's pop_result" where
  "pop q =
     (case items q of
        x # xs \<Rightarrow> Popped x (q\<lparr>items := xs\<rparr>)
      | [] \<Rightarrow> if closed q then NoMoreData else PopBlocked)"

text \<open>
  Modelled from the spec: \<open>close\<close> of \<open>Samplequeue\<close>, which only sets the closed flag.
\<close>

definition close :: "'s queue \<Rightarrow> 's queue" where
  "close q = q\<lparr>closed := True\<rparr>"

text \<open>
  The queue serialises the calls of the producer and the consumer, so a run of the two
  tasks is a sequence of completed calls, in the order in which they took effect.
  \<open>exec\<close> runs such a sequence and collects what each call returned; it is \<open>None\<close> when
  a call of the sequence would still be blocked at its place, so that the sequence is
  not a run.
\<close>

datatype 's op = Push 's | Pop | Close

datatype 's ret = Pushed | Refused queue_error | Got 's | NoMore | ClosedOk

fun exec :: "nat \<Rightarrow> 's op list \<Rightarrow> 's queue \<Rightarrow> ('s ret list \<times> 's queue) option" where
  "exec cap [] q = Some ([], q)"
| "exec cap (Push x # ops) q =
     (case push cap q x of
        PushBlocked \<Rightarrow> None
      | PushFailed e \<Rightarrow> map_option (\<lambda>(rs, q'). (Refused e # rs, q')) (exec cap ops q)
      | PushOk q1 \<Rightarrow> map_option (\<lambda>(rs, q'). (Pushed # rs, q')) (exec cap ops q1))"
| "exec cap (Pop # ops) q =
     (case pop q of
        PopBlocked \<Rightarrow> None
      | NoMoreData \<Rightarrow> map_option (\<lambda>(rs, q'). (NoMore # rs, q')) (exec cap ops q)
      | Popped x q1 \<Rightarrow> map_option (\<lambda>(rs, q'). (Got x # rs, q')) (exec cap ops q1))"
| "exec cap (Close # ops) q =
     map_option (\<lambda>(rs, q'). (ClosedOk # rs, q')) (exec cap ops (close q))"

text \<open>The samples a sequence of calls pushes, and the samples its pops returned.\<close>

fun pushed :: "'s op list \<Rightarrow> 's list" where
  "pushed [] = []"
| "pushed (Push x # ops) = x # pushed ops"
| "pushed (Pop # ops) = pushed ops"
| "pushed (Close # ops) = pushed ops"

fun gots :: "'s ret list \<Rightarrow> 's list" where
  "gots [] = []"
| "gots (Got x # rs) = x # gots rs"
| "gots (Pushed # rs) = gots rs"
| "gots (Refused e # rs) = gots rs"
| "gots (NoMore # rs) = gots rs"
| "gots (ClosedOk # rs) = gots rs"

text \<open>
  Repeated pops until the sentinel: the samples returned before it, or \<open>None\<close> when a
  pop blocks for ever on an empty open queue.
\<close>

function drain :: "'s queue \<Rightarrow> 's list option" where
  "drain q =
     (case pop q of
        Popped x q1 \<Rightarrow> map_option (\<lambda>xs. x # xs) (drain q1)
      | NoMoreData \<Rightarrow> Some []
      | PopBlocked \<Rightarrow> None)"
  by pat_completeness auto
termination
  by (relation "measure (\<lambda>q. length (items q))")
     (auto simp: pop_def split: list.splits if_splits)

declare drain.simps [simp del]

section \<open>The consumer and the producer (main.cpp)\<close>

text \<open>
  The calls the consumer task issues, in order, and the state of its \<open>Writer\<close>.
  Modelled from the spec: the class \<open>Writer\<close> (\<open>writer.hpp\<close> is not among the sources):
  \<open>pending\<close> holds the records written but not yet flushed, \<open>durable\<close> the records of the
  persistent log.
\<close>

datatype 's call = CallPop | CallWriteSample 's | CallFlush | CallClose

record 's consumer =
  pending :: "'s list"
  durable :: "'s list"
  calls :: "'s call list"

text \<open>
  Modelled from the spec: the constructor of \<open>Writer\<close>, which opens the log for
  appending; \<open>old\<close> is what the log holds already.
\<close>

definition Writer_open :: "'s list \<Rightarrow> 's consumer" where
  "Writer_open old = \<lparr>pending = [], durable = old, calls = []\<rparr>"

text \<open>Modelled from the spec: \<open>write_sample\<close> of \<open>Writer\<close> appends one record.\<close>

definition write_sample :: "'s consumer \<Rightarrow> 's \<Rightarrow> 's consumer" where
  "write_sample c d = c\<lparr>pending := pending c @ [d], calls := calls c @ [CallWriteSample d]\<rparr>"

text \<open>
  Modelled from the spec: \<open>flush\<close> of \<open>Writer\<close> forces the written records to the
  persistent log.
\<close>

definition flush :: "'s consumer \<Rightarrow> 's consumer" where
  "flush c = c\<lparr>durable := durable c @ pending c, pending := [], calls := calls c @ [CallFlush]\<rparr>"

text \<open>The call \<open>q.pop()\<close> of the consumer, as an entry of its sequence of calls.\<close>

definition popped :: "'s consumer \<Rightarrow> 's consumer" where
  "popped c = c\<lparr>calls := calls c @ [CallPop]\<rparr>"

text \<open>
  One iteration of the loop of \<open>write\<close>; \<open>d\<close> is the sample \<open>q.pop()\<close> returned:
  \<^verbatim>\<open>sample data = q.pop(); writer.write_sample(data); writer.flush();\<close>
\<close>

definition write_iter :: "'s consumer \<Rightarrow> 's \<Rightarrow> 's consumer" where
  "write_iter c d = flush (write_sample (popped c) d)"

text \<open>
  The loop \<^verbatim>\<open>while(true)\<close> of \<open>write\<close>: \<open>pops i\<close> is the sample the \<open>i\<close>-th call of
  \<open>q.pop()\<close> returns.  The value \<open>None\<close> says that the loop does not return.
\<close>

partial_function (option) write_loop :: "(nat \<Rightarrow> 's) \<Rightarrow> nat \<Rightarrow> 's consumer \<Rightarrow> 's consumer option"
where
  "write_loop pops i c = write_loop pops (Suc i) (write_iter c (pops i))"

text \<open>
  The function \<open>write\<close> of \<open>main.cpp\<close> (\<open>write\<close> is a keyword here, hence the suffix):
  construct the \<open>Writer\<close>, then loop.
\<close>

definition write_consumer :: "(nat \<Rightarrow> 's) \<Rightarrow> 's list \<Rightarrow> 's consumer option" where
  "write_consumer pops old = write_loop pops 0 (Writer_open old)"

text \<open>The consumer after the iterations that popped the samples \<open>ds\<close>, in that order.\<close>

definition write_steps :: "'s list \<Rightarrow> 's consumer \<Rightarrow> 's consumer" where
  "write_steps ds c = foldl write_iter c ds"

text \<open>
  The calls the producer loop of \<open>main\<close> issues.  One iteration, where \<open>d\<close> is the sample
  \<open>sample_usage()\<close> returned:
  \<^verbatim>\<open>sample data = sample_usage(); samplequeue.push(data);\<close>
\<close>

datatype 's pcall = CallSampleUsage | CallPush 's

definition main_iter :: "'s pcall list \<Rightarrow> 's \<Rightarrow> 's pcall list" where
  "main_iter tr d = tr @ [CallSampleUsage, CallPush d]"

text \<open>
  The loop \<^verbatim>\<open>while(true)\<close> of \<open>main\<close>: \<open>samples i\<close> is the sample the \<open>i\<close>-th call of
  \<open>sample_usage()\<close> returns.
\<close>

partial_function (option) main_loop :: "(nat \<Rightarrow> 's) \<Rightarrow> nat \<Rightarrow> 's pcall list \<Rightarrow> 's pcall list option"
where
  "main_loop samples i tr = main_loop samples (Suc i) (main_iter tr (samples i))"

definition main :: "(nat \<Rightarrow> 's) \<Rightarrow> 's pcall list option" where
  "main samples = main_loop samples 0 []"

definition main_steps :: "'s list \<Rightarrow> 's pcall list \<Rightarrow> 's pcall list" where
  "main_steps ds tr = foldl main_iter tr ds"

text \<open>The samples for which the producer called \<open>push\<close>.\<close>

fun pushes :: "'s pcall list \<Rightarrow> 's list" where
  "pushes [] = []"
| "pushes (CallPush d # tr) = d # pushes tr"
| "pushes (CallSampleUsage # tr) = pushes tr"

section \<open>Properties of the binary64 operations\<close>

lemma bitlen_0: "bitlen 0 = 0"
  by (simp add: bitlen.simps)

lemma bitlen_pos: "0 < n \<Longrightarrow> bitlen n = Suc (bitlen (n div 2))"
  by (subst bitlen.simps) simp

lemma bitlen_bound: "n < 2 ^ bitlen n"
proof (induction n rule: bitlen.induct)
  case (1 n)
  show ?case
  proof (cases "n = 0")
    case True
    then show ?thesis by (simp add: bitlen_0)
  next
    case False
    with 1 have "n div 2 < 2 ^ bitlen (n div 2)" by simp
    then have "n < 2 * 2 ^ bitlen (n div 2)" by linarith
    with False show ?thesis by (simp add: bitlen_pos)
  qed
qed

lemma bitlen_lower: "0 < n \<Longrightarrow> 2 ^ (bitlen n - 1) \<le> n"
proof (induction n rule: bitlen.induct)
  case (1 n)
  show ?case
  proof (cases "n div 2 = 0")
    case True
    with 1(2) have "n = 1" by linarith
    then show ?thesis by (simp add: bitlen_pos bitlen_0)
  next
    case False
    with 1 have ih: "2 ^ (bitlen (n div 2) - 1) \<le> n div 2" by simp
    from False have "0 < bitlen (n div 2)" by (simp add: bitlen_pos)
    then have "(2::nat) ^ bitlen (n div 2) = 2 * 2 ^ (bitlen (n div 2) - 1)"
      by (cases "bitlen (n div 2)") simp_all
    with ih have "(2::nat) ^ bitlen (n div 2) \<le> n" by linarith
    with 1(2) show ?thesis by (simp add: bitlen_pos)
  qed
qed

lemma bitlen_mono: "m \<le> n \<Longrightarrow> bitlen m \<le> bitlen n"
proof (rule ccontr)
  assume mn: "m \<le> n" and "\<not> bitlen m \<le> bitlen n"
  then have lt: "bitlen n \<le> bitlen m - 1" and pos: "0 < m"
    by (auto simp: bitlen_0 intro: Suc_leI gr0I)
  have "n < 2 ^ bitlen n" by (rule bitlen_bound)
  also have "(2::nat) ^ bitlen n \<le> 2 ^ (bitlen m - 1)"
    using lt by (simp add: power_increasing)
  also have "\<dots> \<le> m" using pos by (rule bitlen_lower)
  finally show False using mn by simp
qed

lemma rne_core_ge: "N div D \<le> rne_core N D"
  by (simp add: rne_core_def Let_def)

lemma rne_core_le: "rne_core N D \<le> N div D + 1"
  by (simp add: rne_core_def Let_def)

lemma rne_core_exact: "0 < D \<Longrightarrow> rne_core (k * D) D = k"
  by (simp add: rne_core_def Let_def)

lemma rne_core_mono:
  assumes D: "0 < D" and le: "N1 \<le> N2"
  shows "rne_core N1 D \<le> rne_core N2 D"
proof (cases "N1 div D < N2 div D")
  case True
  have "rne_core N1 D \<le> N1 div D + 1" by (rule rne_core_le)
  also have "\<dots> \<le> N2 div D" using True by simp
  also have "\<dots> \<le> rne_core N2 D" by (rule rne_core_ge)
  finally show ?thesis .
next
  case False
  with le have q: "N1 div D = N2 div D"
    by (meson div_le_mono le_antisym not_le_imp_less)
  have "N1 mod D \<le> N2 mod D"
    using le q by (metis add_le_cancel_left div_mult_mod_eq mult.commute)
  then show ?thesis
    using q by (auto simp: rne_core_def Let_def)
qed

lemma rne_core_upper: "0 < D \<Longrightarrow> N \<le> k * D \<Longrightarrow> rne_core N D \<le> k"
  using rne_core_mono [of D N "k * D"] by (simp add: rne_core_exact)

lemma rne_core_lower: "0 < D \<Longrightarrow> k * D \<le> N \<Longrightarrow> k \<le> rne_core N D"
  using rne_core_mono [of D "k * D" N] by (simp add: rne_core_exact)


lemma double_of_nat_Fin:
  "\<exists>m e. double_of_nat n = Fin m (int e) \<and> m * 2 ^ e = dnat n"
proof (cases "rne_core n (2 ^ (bitlen n - 53)) = 2 ^ 53")
  case True
  have "double_of_nat n = Fin (2 ^ 52) (int (Suc (bitlen n - 53)))"
    using True by (simp add: double_of_nat_def norm53_def Let_def add.commute)
  moreover have "(2::nat) ^ 52 * 2 ^ Suc (bitlen n - 53) = dnat n"
    using True by (simp add: dnat_def)
  ultimately show ?thesis by blast
next
  case False
  then have "double_of_nat n = Fin (rne_core n (2 ^ (bitlen n - 53))) (int (bitlen n - 53))"
    by (simp add: double_of_nat_def norm53_def Let_def)
  then show ?thesis unfolding dnat_def by blast
qed

lemma dnat_mono:
  assumes "n1 \<le> n2"
  shows "dnat n1 \<le> dnat n2"
proof (cases "bitlen n1 - 53 = bitlen n2 - 53")
  case True
  then show ?thesis
    using assms by (simp add: dnat_def rne_core_mono)
next
  case False
  define e1 where "e1 = bitlen n1 - 53"
  define e2 where "e2 = bitlen n2 - 53"
  have "bitlen n1 \<le> bitlen n2" using assms by (rule bitlen_mono)
  with False have lt: "e1 < e2" and b2: "53 < bitlen n2" and b1: "bitlen n1 \<le> 53 + e1"
    by (auto simp: e1_def e2_def)
  have "n1 < 2 ^ bitlen n1" by (rule bitlen_bound)
  also have "(2::nat) ^ bitlen n1 \<le> 2 ^ (53 + e1)"
    using b1 by (simp add: power_increasing)
  finally have "n1 \<le> 2 ^ 53 * 2 ^ e1" by (simp add: power_add)
  then have "rne_core n1 (2 ^ e1) \<le> 2 ^ 53" by (intro rne_core_upper) simp_all
  then have "dnat n1 \<le> 2 ^ 53 * 2 ^ e1" by (simp add: dnat_def e1_def)
  also have "\<dots> = 2 ^ (53 + e1)" by (simp add: power_add)
  also have "\<dots> \<le> 2 ^ (52 + e2)"
    using lt by (simp add: power_increasing)
  finally have up: "dnat n1 \<le> 2 ^ (52 + e2)" .
  have "0 < n2" using b2 by (auto simp: bitlen_0 intro: gr0I)
  then have "2 ^ (bitlen n2 - 1) \<le> n2" by (rule bitlen_lower)
  moreover have "bitlen n2 - 1 = 52 + e2" using b2 by (simp add: e2_def)
  ultimately have "2 ^ 52 * 2 ^ e2 \<le> n2" by (simp add: power_add)
  then have "2 ^ 52 \<le> rne_core n2 (2 ^ e2)" by (intro rne_core_lower) simp_all
  then have "2 ^ 52 * 2 ^ e2 \<le> dnat n2" by (simp add: dnat_def e2_def)
  with up show ?thesis by (simp add: power_add)
qed

lemma dnat_pos: "0 < n \<Longrightarrow> 0 < dnat n"
proof -
  assume pos: "0 < n"
  define e where "e = bitlen n - 53"
  show ?thesis
  proof (cases "e = 0")
    case True
    then show ?thesis using pos by (simp add: dnat_def e_def rne_core_def)
  next
    case False
    then have "bitlen n - 1 = 52 + e" by (simp add: e_def)
    with bitlen_lower [OF pos] have "2 ^ 52 * 2 ^ e \<le> n" by (simp add: power_add)
    then have "2 ^ 52 \<le> rne_core n (2 ^ e)" by (intro rne_core_lower) simp_all
    then have "0 < rne_core n (2 ^ e)"
      by (metis gr0I power_eq_0_iff zero_neq_numeral le_zero_eq)
    then show ?thesis by (simp add: dnat_def e_def)
  qed
qed

lemma dval_Fin_neg: "dval (Fin m (- int s)) = Some (real m / 2 ^ s)"
  by (cases "s = 0") simp_all

lemma dval_norm53: "dval (norm53 m (- int s)) = Some (real m / 2 ^ s)"
proof (cases "m = 2 ^ 53")
  case False
  then show ?thesis by (simp only: norm53_def if_False dval_Fin_neg)
next
  case True
  show ?thesis
  proof (cases s)
    case 0
    with True show ?thesis by (simp add: norm53_def)
  next
    case (Suc k)
    have "- int (Suc k) + 1 = - int k" by simp
    then have "norm53 m (- int s) = Fin (2 ^ 52) (- int k)"
      using True Suc by (simp add: norm53_def)
    then show ?thesis using True Suc by (simp only: dval_Fin_neg) simp
  qed
qed

lemma rne53_le_one:
  assumes pos: "0 < a" and le: "a \<le> b"
  shows "\<exists>r. dval (rne53 a b) = Some r \<and> 0 \<le> r \<and> r \<le> 1"
proof -
  define e0 where "e0 = int (bitlen a) - int (bitlen b)"
  define E where "E = (if b * 2 ^ nat e0 \<le> a * 2 ^ nat (- e0) then e0 else e0 - 1)"
  define s where "s = nat (52 - E)"
  have "bitlen a \<le> bitlen b" using le by (rule bitlen_mono)
  then have "e0 \<le> 0" by (simp add: e0_def)
  then have E0: "E \<le> 0" by (simp add: E_def)
  then have s: "52 - E = int s" and ns: "nat (- (52 - E)) = 0" by (simp_all add: s_def)
  have eq: "rne53 a b = norm53 (rne_core (a * 2 ^ s) b) (- int s)"
    unfolding rne53_def Let_def e0_def [symmetric] E_def [symmetric] s ns by simp
  have "a * 2 ^ s \<le> 2 ^ s * b" using le by simp
  then have "rne_core (a * 2 ^ s) b \<le> 2 ^ s"
    using pos le by (intro rne_core_upper) simp_all
  then have "real (rne_core (a * 2 ^ s) b) \<le> 2 ^ s"
    by (metis of_nat_le_iff of_nat_numeral of_nat_power)
  then have "real (rne_core (a * 2 ^ s) b) / 2 ^ s \<le> 1" by simp
  then show ?thesis by (simp add: eq dval_norm53)
qed

lemma fp_div_unit:
  assumes le: "a \<le> b" and pos: "0 < b"
  shows "\<exists>r. dval (fp_div (double_of_nat a) (double_of_nat b)) = Some r \<and> 0 \<le> r \<and> r \<le> 1"
proof -
  obtain ma ea where A: "double_of_nat a = Fin ma (int ea)" and va: "ma * 2 ^ ea = dnat a"
    using double_of_nat_Fin by blast
  obtain mb eb where B: "double_of_nat b = Fin mb (int eb)" and vb: "mb * 2 ^ eb = dnat b"
    using double_of_nat_Fin by blast
  have "0 < dnat b" using pos by (rule dnat_pos)
  with vb have mb: "mb \<noteq> 0" by (auto intro: ccontr)
  have vle: "ma * 2 ^ ea \<le> mb * 2 ^ eb"
    using dnat_mono [OF le] va vb by simp
  show ?thesis
  proof (cases "ma = 0")
    case True
    with A B mb show ?thesis by simp
  next
    case False
    have "ma * 2 ^ nat (int ea - int eb) \<le> mb * 2 ^ nat (int eb - int ea)"
    proof (cases "eb \<le> ea")
      case True
      then have p: "(2::nat) ^ (ea - eb) * 2 ^ eb = 2 ^ ea"
        by (simp flip: power_add)
      have "ma * 2 ^ (ea - eb) * 2 ^ eb = ma * 2 ^ ea"
        by (simp only: mult.assoc p)
      with vle have "ma * 2 ^ (ea - eb) * 2 ^ eb \<le> mb * 2 ^ eb" by (simp only:)
      then have "ma * 2 ^ (ea - eb) \<le> mb" by simp
      with True show ?thesis by (simp add: nat_diff_distrib')
    next
      case False
      then have p: "(2::nat) ^ (eb - ea) * 2 ^ ea = 2 ^ eb"
        by (simp flip: power_add)
      have "mb * 2 ^ (eb - ea) * 2 ^ ea = mb * 2 ^ eb"
        by (simp only: mult.assoc p)
      with vle have "ma * 2 ^ ea \<le> mb * 2 ^ (eb - ea) * 2 ^ ea" by (simp only:)
      then have "ma \<le> mb * 2 ^ (eb - ea)" by simp
      with False show ?thesis by (simp add: nat_diff_distrib')
    qed
    moreover have "0 < ma * 2 ^ nat (int ea - int eb)" using False by simp
    ultimately show ?thesis
      using A B mb False rne53_le_one by simp
  qed
qed



lemma double_of_nat_0: "double_of_nat 0 = Fin 0 0"
  by (simp add: double_of_nat_def rne_core_def norm53_def bitlen.simps)

text \<open>
  Each rounding is within half a unit in the last place: the relative error of a
  conversion and of a quotient is at most \<open>2 ^ - 53\<close>.
\<close>

lemma dval_powi: "dval (Fin m e) = Some (real m * 2 powi e)"
  by (simp add: power_int_def inverse_eq_divide power_one_over field_simps)

lemma dval_norm53_powi: "dval (norm53 m e) = Some (real m * 2 powi e)"
proof (cases "m = 2 ^ 53")
  case True
  have "(2::real) powi (e + 1) = 2 powi e * 2"
    by (simp add: power_int_add)
  then show ?thesis using True by (simp add: norm53_def dval_powi del: dval.simps)
next
  case False
  then show ?thesis by (simp add: norm53_def dval_powi del: dval.simps)
qed

lemma rne_core_half:
  assumes "0 < D"
  shows "\<bar>real (rne_core N D) - real N / real D\<bar> \<le> 1 / 2"
proof -
  define q where "q = N div D"
  define r where "r = N mod D"
  have N: "real N = real q * real D + real r"
    unfolding q_def r_def by (metis of_nat_add of_nat_mult div_mult_mod_eq)
  have rD: "r < D" using assms by (simp add: r_def)
  have D: "0 < real D" using assms by simp
  have frac: "real N / real D = real q + real r / real D"
    using D by (simp add: N field_simps)
  show ?thesis
  proof (cases "D < 2 * r \<or> (2 * r = D \<and> q mod 2 = 1)")
    case True
    then have c: "rne_core N D = q + 1"
      by (simp add: rne_core_def q_def r_def Let_def)
    from True have "real D \<le> 2 * real r"
      by (metis less_imp_le of_nat_le_iff of_nat_mult of_nat_numeral order_refl)
    then have "1 / 2 \<le> real r / real D" using D by (simp add: field_simps)
    moreover have "real r / real D < 1" using rD D by simp
    ultimately show ?thesis by (simp add: c frac)
  next
    case False
    then have c: "rne_core N D = q"
      by (simp add: rne_core_def q_def r_def Let_def)
    from False have "2 * r \<le> D" by simp
    then have "2 * real r \<le> real D"
      by (metis of_nat_le_iff of_nat_mult of_nat_numeral)
    then have "real r / real D \<le> 1 / 2" using D by (simp add: field_simps)
    moreover have "0 \<le> real r / real D" by simp
    ultimately show ?thesis by (simp add: c frac)
  qed
qed

lemma pow2_ratio: "(2::real) ^ nat s / 2 ^ nat (- s) = 2 powi s"
  by (cases "0 \<le> s") (simp_all add: power_int_def inverse_eq_divide power_one_over)

lemma binade_lower:
  assumes a: "0 < a" and b: "0 < b"
  defines "e0 \<equiv> int (bitlen a) - int (bitlen b)"
  defines "E \<equiv> (if b * 2 ^ nat e0 \<le> a * 2 ^ nat (- e0) then e0 else e0 - 1)"
  shows "2 powi E \<le> real a / real b"
proof (cases "b * 2 ^ nat e0 \<le> a * 2 ^ nat (- e0)")
  case True
  then have "real (b * 2 ^ nat e0) \<le> real (a * 2 ^ nat (- e0))"
    by (simp only: of_nat_le_iff)
  then have "real b * (2 ^ nat e0 / 2 ^ nat (- e0)) \<le> real a"
    by (simp add: field_simps)
  then have "real b * 2 powi e0 \<le> real a" by (simp only: pow2_ratio)
  then have "2 powi e0 \<le> real a / real b" using b by (simp add: field_simps)
  then show ?thesis using True by (simp add: E_def)
next
  case False
  have la: "0 < bitlen a" using a by (simp add: bitlen_pos)
  have "2 ^ (bitlen a - 1) \<le> a" using a by (rule bitlen_lower)
  then have lo: "(2::real) ^ (bitlen a - 1) \<le> real a"
    by (metis of_nat_le_iff of_nat_numeral of_nat_power)
  have "b < 2 ^ bitlen b" by (rule bitlen_bound)
  then have hi: "real b < 2 ^ bitlen b"
    by (metis of_nat_less_iff of_nat_numeral of_nat_power)
  have "e0 - 1 = int (bitlen a - 1) - int (bitlen b)"
    using la by (simp add: e0_def)
  then have "(2::real) powi (e0 - 1) = 2 ^ (bitlen a - 1) / 2 ^ bitlen b"
    by (simp add: power_int_diff)
  also have "\<dots> \<le> real a / 2 ^ bitlen b"
    using lo by (simp add: divide_right_mono)
  also have "\<dots> \<le> real a / real b"
    using hi b by (simp add: frac_le)
  finally show ?thesis using False by (simp add: E_def)
qed

lemma rne53_accuracy:
  assumes a: "0 < a" and b: "0 < b"
  shows "\<exists>r. dval (rne53 a b) = Some r
           \<and> \<bar>r - real a / real b\<bar> \<le> (real a / real b) / 2 ^ 53"
proof -
  define e0 where "e0 = int (bitlen a) - int (bitlen b)"
  define E where "E = (if b * 2 ^ nat e0 \<le> a * 2 ^ nat (- e0) then e0 else e0 - 1)"
  define s where "s = 52 - E"
  define N where "N = a * 2 ^ nat s"
  define D where "D = b * 2 ^ nat (- s)"
  define m where "m = rne_core N D"
  have eq: "rne53 a b = norm53 m (- s)"
    by (simp add: rne53_def Let_def e0_def E_def s_def N_def D_def m_def)
  have Dpos: "0 < D" using b by (simp add: D_def)
  have half: "\<bar>real m - real N / real D\<bar> \<le> 1 / 2"
    unfolding m_def using Dpos by (rule rne_core_half)
  have "real N / real D = (real a / real b) * (2 ^ nat s / 2 ^ nat (- s))"
    by (simp add: N_def D_def)
  then have ND: "real N / real D = (real a / real b) * 2 powi s"
    by (simp only: pow2_ratio)
  have inv: "(2::real) powi s * 2 powi (- s) = 1"
    by (simp add: power_int_minus)
  have lowE: "2 powi E \<le> real a / real b"
    unfolding E_def e0_def using a b by (rule binade_lower)
  have "(2::real) powi (- s) = 2 powi E / 2 ^ 52"
    by (simp add: s_def power_int_diff)
  then have ulp: "(2::real) powi (- s) \<le> (real a / real b) / 2 ^ 52"
    using lowE by (simp add: divide_right_mono)
  have "real m * 2 powi (- s) - real a / real b
      = (real m - real N / real D) * 2 powi (- s)"
    using inv by (simp add: ND algebra_simps)
  then have "\<bar>real m * 2 powi (- s) - real a / real b\<bar>
      = \<bar>real m - real N / real D\<bar> * 2 powi (- s)"
    by (simp add: abs_mult)
  also have "\<dots> \<le> (1 / 2) * 2 powi (- s)"
    using half by (intro mult_right_mono) simp_all
  also have "\<dots> \<le> (1 / 2) * ((real a / real b) / 2 ^ 52)"
    using ulp by simp
  also have "\<dots> = (real a / real b) / 2 ^ 53" by simp
  finally show ?thesis by (simp add: eq dval_norm53_powi)
qed


lemma dnat_accuracy: "\<bar>real (dnat n) - real n\<bar> \<le> real n / 2 ^ 53"
proof (cases "bitlen n - 53 = 0")
  case True
  then have "dnat n = n" by (simp add: dnat_def rne_core_def)
  then show ?thesis by simp
next
  case False
  define e where "e = bitlen n - 53"
  from False have e: "0 < e" and bl: "bitlen n - 1 = 52 + e" by (simp_all add: e_def)
  then have pos: "0 < n" by (auto simp: bitlen_0 e_def intro: gr0I)
  have "2 ^ (52 + e) \<le> n" using bitlen_lower [OF pos] by (simp only: bl)
  then have "(2::real) ^ (52 + e) \<le> real n"
    by (metis of_nat_le_iff of_nat_numeral of_nat_power)
  then have low: "(2::real) ^ e / 2 \<le> real n / 2 ^ 53"
    by (simp add: power_add field_simps)
  have "\<bar>real (rne_core n (2 ^ e)) - real n / real (2 ^ e)\<bar> \<le> 1 / 2"
    by (rule rne_core_half) simp
  then have "\<bar>real (rne_core n (2 ^ e)) - real n / 2 ^ e\<bar> * 2 ^ e \<le> (1 / 2) * 2 ^ e"
    by (intro mult_right_mono) simp_all
  moreover have "\<bar>real (rne_core n (2 ^ e)) - real n / 2 ^ e\<bar> * 2 ^ e
      = \<bar>real (rne_core n (2 ^ e)) * 2 ^ e - real n\<bar>"
  proof -
    have "\<bar>real (rne_core n (2 ^ e)) - real n / 2 ^ e\<bar> * 2 ^ e
        = \<bar>(real (rne_core n (2 ^ e)) - real n / 2 ^ e) * 2 ^ e\<bar>"
      by (simp add: abs_mult)
    also have "(real (rne_core n (2 ^ e)) - real n / 2 ^ e) * 2 ^ e
        = real (rne_core n (2 ^ e)) * 2 ^ e - real n"
      by (simp add: algebra_simps)
    finally show ?thesis .
  qed
  ultimately have "\<bar>real (rne_core n (2 ^ e)) * 2 ^ e - real n\<bar> \<le> 2 ^ e / 2"
    by simp
  with low show ?thesis by (simp add: dnat_def e_def)
qed

lemma fp_div_accuracy:
  assumes pos: "0 < b"
  shows "\<exists>r. dval (fp_div (double_of_nat a) (double_of_nat b)) = Some r
           \<and> \<bar>r - real (dnat a) / real (dnat b)\<bar> \<le> real (dnat a) / real (dnat b) / 2 ^ 53"
proof -
  obtain ma ea where A: "double_of_nat a = Fin ma (int ea)" and va: "ma * 2 ^ ea = dnat a"
    using double_of_nat_Fin by blast
  obtain mb eb where B: "double_of_nat b = Fin mb (int eb)" and vb: "mb * 2 ^ eb = dnat b"
    using double_of_nat_Fin by blast
  have "0 < dnat b" using pos by (rule dnat_pos)
  with vb have mb: "mb \<noteq> 0" by (auto intro: ccontr)
  show ?thesis
  proof (cases "ma = 0")
    case True
    with va have "dnat a = 0" by simp
    with True A B mb show ?thesis by simp
  next
    case False
    define a' where "a' = ma * 2 ^ nat (int ea - int eb)"
    define b' where "b' = mb * 2 ^ nat (int eb - int ea)"
    have pa: "0 < a'" and pb: "0 < b'" using False mb by (simp_all add: a'_def b'_def)
    have "real a' * real (dnat b) = real b' * real (dnat a)"
    proof (cases "eb \<le> ea")
      case True
      then have "(2::nat) ^ (ea - eb) * 2 ^ eb = 2 ^ ea" by (simp flip: power_add)
      then have "a' * dnat b = b' * dnat a"
        using True by (simp add: a'_def b'_def va [symmetric] vb [symmetric] nat_diff_distrib')
      then show ?thesis by (metis of_nat_mult)
    next
      case False
      then have "(2::nat) ^ (eb - ea) * 2 ^ ea = 2 ^ eb" by (simp flip: power_add)
      then have "a' * dnat b = b' * dnat a"
        using False by (simp add: a'_def b'_def va [symmetric] vb [symmetric] nat_diff_distrib')
      then show ?thesis by (metis of_nat_mult)
    qed
    then have ratio: "real a' / real b' = real (dnat a) / real (dnat b)"
      using pb \<open>0 < dnat b\<close> by (simp add: field_simps)
    have "fp_div (double_of_nat a) (double_of_nat b) = rne53 a' b'"
      using False mb by (simp add: A B a'_def b'_def)
    with rne53_accuracy [OF pa pb] show ?thesis by (simp add: ratio)
  qed
qed

lemmas fp_eval = double_of_nat_def rne53_def rne_core_def norm53_def bitlen.simps Let_def

section \<open>Properties of the sampler\<close>

lemma spec_total_eq:
  "spec_total a b =
     (user_time b - user_time a) + (nice_time b - nice_time a)
     + (system_kernel_time b - system_kernel_time a) + (idle_time b - idle_time a)
     + (iowait_time b - iowait_time a) + (irq_time b - irq_time a)
     + (softirq_time b - softirq_time a)"
  unfolding spec_total_def counter_fields_def delta_def
  by (simp only: list.map sum_list.Cons sum_list.Nil add_0_right add.assoc)

lemma sample_cpu_usage_total:
  "sample_cpu_usage a b =
     fp_div (double_of_u64 (spec_total a b - delta idle_time a b))
            (double_of_u64 (spec_total a b))"
  unfolding sample_cpu_usage_def Let_def spec_total_eq delta_def ..

lemma all_deltas_zero_total: "all_deltas_zero a b \<Longrightarrow> spec_total a b = 0"
  by (simp add: all_deltas_zero_def spec_total_def counter_fields_def)

lemma all_deltas_zero_idle: "all_deltas_zero a b \<Longrightarrow> delta idle_time a b = 0"
  by (simp add: all_deltas_zero_def counter_fields_def)

lemma delta_of_nat:
  "f a \<le> f b \<Longrightarrow> delta f a b = of_nat (unat (f b) - unat (f a))"
  by (simp add: delta_def of_nat_diff word_le_nat_alt)

lemma spec_total_elapsed:
  assumes "nondecreasing a b"
  shows "spec_total a b = of_nat (elapsed a b)"
  using assms
  by (simp add: nondecreasing_def spec_total_def elapsed_def counter_fields_def delta_of_nat)

lemma unat_delta_le_elapsed:
  assumes "nondecreasing a b"
  shows "unat (idle_time b) - unat (idle_time a) \<le> elapsed a b"
  by (simp add: elapsed_def counter_fields_def)

text \<open>The words of the sampler, read as natural numbers.\<close>

lemma unat_sub_mod: "unat (x - y) = (unat x + 2 ^ 64 - unat y) mod 2 ^ 64" for x y :: "64 word"
proof -
  have lt: "unat x < 2 ^ 64" "unat y < 2 ^ 64"
    using unsigned_less [of x] unsigned_less [of y] by simp_all
  have sub: "unat (x - y) =
      (if unat y \<le> unat x then unat x - unat y else unat x + 2 ^ 64 - unat y)"
    by (simp add: unat_sub_if_size word_size)
  show ?thesis
  proof (cases "unat y \<le> unat x")
    case True
    then have e: "unat x + 2 ^ 64 - unat y = (unat x - unat y) + 2 ^ 64"
      by simp
    have "unat x - unat y < 2 ^ 64" using lt by simp
    then have "(unat x - unat y + 2 ^ 64) mod 2 ^ 64 = unat x - unat y"
      by (simp only: mod_add_self2 mod_less)
    then show ?thesis using True by (simp only: sub e if_True)
  next
    case False
    then have "unat x + 2 ^ 64 - unat y < 2 ^ 64" by simp
    then show ?thesis using False by (simp add: sub)
  qed
qed

lemma unat_delta: "unat (delta f a b) = mod_delta f a b"
  by (simp only: delta_def mod_delta_def unat_sub_mod)

lemma unat_spec_total: "unat (spec_total a b) = mod_total a b"
proof -
  have "spec_total a b = of_nat (sum_list (map (\<lambda>f. unat (delta f a b)) counter_fields))"
    by (simp add: spec_total_def counter_fields_def)
  then have "unat (spec_total a b)
      = sum_list (map (\<lambda>f. unat (delta f a b)) counter_fields) mod 2 ^ 64"
    by (simp only: unat_of_nat) simp
  then show ?thesis by (simp only: mod_total_def unat_delta)
qed

lemma unat_busy: "unat (spec_total a b - delta idle_time a b) = mod_busy a b"
  by (simp only: mod_busy_def unat_sub_mod unat_spec_total unat_delta)

lemma scenario_quotient: "fp_div (double_of_nat 20) (double_of_nat 70) = Fin 5146971002709138 (- 54)"
  by (simp add: fp_eval)

lemma quotient_2_1: "fp_div (double_of_nat 2) (double_of_nat 1) = Fin (2 ^ 52) (- 51)"
  by (simp add: fp_eval)

lemma quotient_2_2: "fp_div (double_of_nat 2) (double_of_nat 2) = Fin (2 ^ 52) (- 52)"
  by (simp add: fp_eval)

lemma quotient_1_2: "fp_div (double_of_nat 1) (double_of_nat 2) = Fin (2 ^ 52) (- 53)"
  by (simp add: fp_eval)

lemma quotient_0_0: "fp_div (double_of_nat 0) (double_of_nat 0) = NaN"
  by (simp add: double_of_nat_0)

section \<open>The claims about the sampler\<close>

text \<open>
  C1.  The claim: when all per-field deltas are zero, the capture returns utilization
  0.0, signals a StaleCounterWarning and never divides by zero.
  \<open>sample_cpu_usage\<close> has no guard for a zero total and no way to signal a warning: its
  only result is the \<open>double\<close>.  When the seven deltas are all zero, the total is zero,
  the divisor \<open>double(total_delta)\<close> is \<open>0.0\<close>, and the result of the division
  \<open>0.0 / 0.0\<close> is NaN.  Whenever the total is zero, the result is NaN or infinite, so it
  is never the number 0.0.
\<close>

theorem zero_deltas_give_nan:
  "(all_deltas_zero a b \<longrightarrow>
      spec_total a b = 0 \<and> double_of_u64 (spec_total a b) = Fin 0 0
      \<and> sample_cpu_usage a b = NaN)
   \<and> (spec_total a b = 0 \<longrightarrow>
      (sample_cpu_usage a b = NaN \<or> sample_cpu_usage a b = Inf)
      \<and> dval (sample_cpu_usage a b) = None)"
proof -
  have z: "double_of_u64 0 = Fin 0 0"
    by (simp add: double_of_u64_def double_of_nat_0)
  have 1: "spec_total a b = 0 \<and> double_of_u64 (spec_total a b) = Fin 0 0
      \<and> sample_cpu_usage a b = NaN" if "all_deltas_zero a b"
    using z by (simp add: sample_cpu_usage_total all_deltas_zero_total [OF that]
        all_deltas_zero_idle [OF that])
  have 2: "(sample_cpu_usage a b = NaN \<or> sample_cpu_usage a b = Inf)
      \<and> dval (sample_cpu_usage a b) = None" if t: "spec_total a b = 0"
  proof -
    obtain m e where "double_of_u64 (spec_total a b - delta idle_time a b) = Fin m e"
      unfolding double_of_u64_def using double_of_nat_Fin by blast
    then have "sample_cpu_usage a b = (if m = 0 then NaN else Inf)"
      by (simp add: sample_cpu_usage_total t z)
    then show ?thesis by simp
  qed
  from 1 2 show ?thesis by blast
qed

text \<open>Witness for C1: two equal snapshots.\<close>

theorem zero_deltas_give_nan_witness:
  "all_deltas_zero (mk_snap 7 3 1) (mk_snap 7 3 1)
   \<and> spec_total (mk_snap 7 3 1) (mk_snap 7 3 1) = 0
   \<and> sample_cpu_usage (mk_snap 7 3 1) (mk_snap 7 3 1) = NaN
   \<and> dval (sample_cpu_usage (mk_snap 7 3 1) (mk_snap 7 3 1)) = None"
proof -
  have h: "all_deltas_zero (mk_snap 7 3 1) (mk_snap 7 3 1)"
    by (simp add: all_deltas_zero_def counter_fields_def delta_def)
  show ?thesis
    using h zero_deltas_give_nan [of "mk_snap 7 3 1" "mk_snap 7 3 1"] by simp
qed

text \<open>
  Counterexample to C1 as stated: for two equal snapshots the result is NaN, which is
  not the value 0.0.
\<close>

theorem zero_deltas_counterexample:
  "all_deltas_zero (mk_snap 100 900 0) (mk_snap 100 900 0)
   \<and> sample_cpu_usage (mk_snap 100 900 0) (mk_snap 100 900 0) = NaN
   \<and> dval (sample_cpu_usage (mk_snap 100 900 0) (mk_snap 100 900 0)) \<noteq> Some 0"
proof -
  have "sample_cpu_usage (mk_snap 100 900 0) (mk_snap 100 900 0)
      = fp_div (double_of_nat 0) (double_of_nat 0)"
    by (simp add: sample_cpu_usage_def mk_snap_def double_of_u64_def)
  then have "sample_cpu_usage (mk_snap 100 900 0) (mk_snap 100 900 0) = NaN"
    by (simp only: quotient_0_0)
  then show ?thesis
    by (simp add: all_deltas_zero_def counter_fields_def delta_def)
qed

text \<open>
  C2.  The claim: for a non-zero total, the utilization is
  \<open>(total - idle_total) / total\<close> with \<open>idle_total = idle_delta + iowait_delta\<close>.
  The code subtracts \<open>idle_delta\<close> only: for a non-zero total (the sum modulo \<open>2 ^ 64\<close> of
  the seven deltas, each \<open>B.field - A.field\<close> modulo \<open>2 ^ 64\<close>) the result is the finite
  binary64 quotient of \<open>double(total - idle_delta)\<close> by \<open>double(total)\<close>; the iowait
  delta is part of the total and counts as busy time.  The result is the quotient of the
  two converted values up to a relative error of \<open>2 ^ - 53\<close>, and each converted value is
  the integer it converts up to a relative error of \<open>2 ^ - 53\<close>.
\<close>

theorem utilization_formula:
  "spec_total a b \<noteq> 0 \<Longrightarrow>
     sample_cpu_usage a b =
       fp_div (double_of_u64 (spec_total a b - delta idle_time a b))
              (double_of_u64 (spec_total a b))
     \<and> (\<exists>r. dval (sample_cpu_usage a b) = Some r
          \<and> \<bar>r - real (dnat (unat (spec_total a b - delta idle_time a b)))
                   / real (dnat (unat (spec_total a b)))\<bar>
              \<le> real (dnat (unat (spec_total a b - delta idle_time a b)))
                   / real (dnat (unat (spec_total a b))) / 2 ^ 53)
     \<and> \<bar>real (dnat (unat (spec_total a b - delta idle_time a b)))
           - real (unat (spec_total a b - delta idle_time a b))\<bar>
         \<le> real (unat (spec_total a b - delta idle_time a b)) / 2 ^ 53
     \<and> \<bar>real (dnat (unat (spec_total a b))) - real (unat (spec_total a b))\<bar>
         \<le> real (unat (spec_total a b)) / 2 ^ 53"
proof -
  assume "spec_total a b \<noteq> 0"
  then have "0 < unat (spec_total a b)" by (simp add: unat_gt_0)
  from fp_div_accuracy [OF this, of "unat (spec_total a b - delta idle_time a b)"]
  have "\<exists>r. dval (sample_cpu_usage a b) = Some r
          \<and> \<bar>r - real (dnat (unat (spec_total a b - delta idle_time a b)))
                   / real (dnat (unat (spec_total a b)))\<bar>
              \<le> real (dnat (unat (spec_total a b - delta idle_time a b)))
                   / real (dnat (unat (spec_total a b))) / 2 ^ 53"
    by (simp only: sample_cpu_usage_total double_of_u64_def)
  then show ?thesis
    using sample_cpu_usage_total [of a b] dnat_accuracy by blast
qed

text \<open>Witness for C2: one tick of user time and one of iowait; the result is 1.0.\<close>

theorem utilization_formula_witness:
  "spec_total (mk_snap 0 0 0) (mk_snap 1 0 1) \<noteq> 0
   \<and> sample_cpu_usage (mk_snap 0 0 0) (mk_snap 1 0 1) = fp_div (double_of_nat 2) (double_of_nat 2)"
proof -
  have h: "spec_total (mk_snap 0 0 0) (mk_snap 1 0 1) \<noteq> 0"
    by (simp add: spec_total_def counter_fields_def delta_def mk_snap_def)
  show ?thesis
    using h utilization_formula [OF h]
    by (simp add: spec_total_def counter_fields_def delta_def mk_snap_def double_of_u64_def)
qed

text \<open>
  Counterexample to C2 as stated: with one tick of user time and one of iowait the
  total is 2; the code returns \<open>2 / 2 = 1.0\<close>, the formula of the claim gives
  \<open>(2 - 1) / 2 = 0.5\<close>.
\<close>

theorem utilization_formula_counterexample:
  "spec_total (mk_snap 0 0 0) (mk_snap 1 0 1) \<noteq> 0
   \<and> sample_cpu_usage (mk_snap 0 0 0) (mk_snap 1 0 1) = Fin (2 ^ 52) (- 52)
   \<and> spec_utilization (mk_snap 0 0 0) (mk_snap 1 0 1) = Fin (2 ^ 52) (- 53)
   \<and> sample_cpu_usage (mk_snap 0 0 0) (mk_snap 1 0 1)
       \<noteq> spec_utilization (mk_snap 0 0 0) (mk_snap 1 0 1)"
proof -
  have "sample_cpu_usage (mk_snap 0 0 0) (mk_snap 1 0 1)
      = fp_div (double_of_nat 2) (double_of_nat 2)"
    by (simp add: sample_cpu_usage_def mk_snap_def double_of_u64_def)
  then have c: "sample_cpu_usage (mk_snap 0 0 0) (mk_snap 1 0 1) = Fin (2 ^ 52) (- 52)"
    by (simp only: quotient_2_2)
  have "spec_utilization (mk_snap 0 0 0) (mk_snap 1 0 1)
      = fp_div (double_of_nat 1) (double_of_nat 2)"
    by (simp add: spec_utilization_def spec_total_def spec_idle_total_def delta_def
        counter_fields_def mk_snap_def double_of_u64_def)
  then have s: "spec_utilization (mk_snap 0 0 0) (mk_snap 1 0 1) = Fin (2 ^ 52) (- 53)"
    by (simp only: quotient_1_2)
  have "spec_total (mk_snap 0 0 0) (mk_snap 1 0 1) \<noteq> 0"
    by (simp add: spec_total_def counter_fields_def delta_def mk_snap_def)
  then show ?thesis by (simp add: c s)
qed

text \<open>
  C4.  The claim: when each field is non-decreasing and the total delta is
  non-zero, the utilization lies between 0.0 and 1.0.  The total is a sum modulo
  \<open>2 ^ 64\<close>: the claim holds when, in addition, the time that passed between the two
  snapshots (the sum of the seven increases) is below \<open>2 ^ 64\<close>, so that the total does
  not wrap around.
\<close>

theorem utilization_in_unit_interval:
  "nondecreasing a b \<Longrightarrow> spec_total a b \<noteq> 0 \<Longrightarrow> elapsed a b < 2 ^ 64 \<Longrightarrow>
     \<exists>r. dval (sample_cpu_usage a b) = Some r \<and> 0 \<le> r \<and> r \<le> 1"
proof -
  assume nd: "nondecreasing a b" and nz: "spec_total a b \<noteq> 0" and el: "elapsed a b < 2 ^ 64"
  have tot: "unat (spec_total a b) = elapsed a b"
    using el by (simp add: spec_total_elapsed [OF nd] unat_of_nat)
  have "idle_time a \<le> idle_time b"
    using nd by (simp add: nondecreasing_def counter_fields_def)
  then have idle: "unat (delta idle_time a b) = unat (idle_time b) - unat (idle_time a)"
    by (simp add: delta_def unat_sub)
  have le: "delta idle_time a b \<le> spec_total a b"
    using unat_delta_le_elapsed [OF nd] by (simp add: word_le_nat_alt tot idle)
  then have "unat (spec_total a b - delta idle_time a b) \<le> unat (spec_total a b)"
    by (simp add: unat_sub)
  moreover have "0 < unat (spec_total a b)"
    using nz by (simp add: unat_gt_0)
  ultimately show ?thesis
    unfolding sample_cpu_usage_total double_of_u64_def by (rule fp_div_unit)
qed

text \<open>Witness for C4: 20 ticks of user time and 50 idle ticks.\<close>

theorem utilization_in_unit_interval_witness:
  "nondecreasing (mk_snap 100 900 0) (mk_snap 120 950 0)
   \<and> spec_total (mk_snap 100 900 0) (mk_snap 120 950 0) \<noteq> 0
   \<and> elapsed (mk_snap 100 900 0) (mk_snap 120 950 0) < 2 ^ 64
   \<and> (\<exists>r. dval (sample_cpu_usage (mk_snap 100 900 0) (mk_snap 120 950 0)) = Some r
          \<and> 0 \<le> r \<and> r \<le> 1)"
proof -
  have h1: "nondecreasing (mk_snap 100 900 0) (mk_snap 120 950 0)"
    by (simp add: nondecreasing_def counter_fields_def mk_snap_def)
  have h2: "spec_total (mk_snap 100 900 0) (mk_snap 120 950 0) \<noteq> 0"
    by (simp add: spec_total_def counter_fields_def delta_def mk_snap_def)
  have h3: "elapsed (mk_snap 100 900 0) (mk_snap 120 950 0) < 2 ^ 64"
    by (simp add: elapsed_def counter_fields_def mk_snap_def)
  show ?thesis
    using h1 h2 h3 utilization_in_unit_interval [OF h1 h2 h3] by simp
qed

text \<open>
  Counterexample to C4 as stated: the idle counter rises from 0 to \<open>2 ^ 64 - 1\<close> and the
  user counter from 0 to 2.  No field decreases, the total wraps around to 1, the
  numerator \<open>total - idle_delta\<close> wraps around to 2, and the result is 2.0.
\<close>

theorem utilization_in_unit_interval_counterexample:
  "nondecreasing (mk_snap 0 0 0) (mk_snap 2 18446744073709551615 0)
   \<and> spec_total (mk_snap 0 0 0) (mk_snap 2 18446744073709551615 0) \<noteq> 0
   \<and> dval (sample_cpu_usage (mk_snap 0 0 0) (mk_snap 2 18446744073709551615 0)) = Some 2"
proof -
  have "sample_cpu_usage (mk_snap 0 0 0) (mk_snap 2 18446744073709551615 0)
      = fp_div (double_of_nat 2) (double_of_nat 1)"
    by (simp add: sample_cpu_usage_def mk_snap_def double_of_u64_def)
  then have "sample_cpu_usage (mk_snap 0 0 0) (mk_snap 2 18446744073709551615 0)
      = Fin (2 ^ 52) (- 51)"
    by (simp only: quotient_2_1)
  moreover have "nondecreasing (mk_snap 0 0 0) (mk_snap 2 18446744073709551615 0)"
    by (simp add: nondecreasing_def counter_fields_def mk_snap_def)
  moreover have "spec_total (mk_snap 0 0 0) (mk_snap 2 18446744073709551615 0) \<noteq> 0"
    by (simp add: spec_total_def counter_fields_def delta_def mk_snap_def)
  ultimately show ?thesis by simp
qed

text \<open>
  C5.  The scenario A = (user 100, idle 900), B = (user 120, idle 950): the
  deltas are user 20 and idle 50 (the others 0), the total is 70, and the result is the
  binary64 quotient of 20.0 by 70.0, that is \<open>5146971002709138 / 2 ^ 54\<close>, which is
  0.2857 to four decimal places.  One iteration of the consumer loop on this sample adds
  exactly one record to an empty log.
\<close>

theorem end_to_end_scenario:
  "map (\<lambda>f. delta f (mk_snap 100 900 0) (mk_snap 120 950 0)) counter_fields
     = [20, 0, 0, 50, 0, 0, 0]
   \<and> spec_total (mk_snap 100 900 0) (mk_snap 120 950 0) = 70
   \<and> sample_cpu_usage (mk_snap 100 900 0) (mk_snap 120 950 0)
       = fp_div (double_of_u64 (70 - 50)) (double_of_u64 70)
   \<and> dval (sample_cpu_usage (mk_snap 100 900 0) (mk_snap 120 950 0))
       = Some (5146971002709138 / 2 ^ 54)
   \<and> \<bar>5146971002709138 / 2 ^ 54 - 0.2857\<bar> < (0.00005 :: real)
   \<and> durable (write_iter (Writer_open [])
         (sample_cpu_usage (mk_snap 100 900 0) (mk_snap 120 950 0)))
       = [sample_cpu_usage (mk_snap 100 900 0) (mk_snap 120 950 0)]"
proof -
  have q: "sample_cpu_usage (mk_snap 100 900 0) (mk_snap 120 950 0)
      = fp_div (double_of_nat 20) (double_of_nat 70)"
    by (simp add: sample_cpu_usage_def mk_snap_def double_of_u64_def)
  have d: "map (\<lambda>f. delta f (mk_snap 100 900 0) (mk_snap 120 950 0)) counter_fields
      = [20, 0, 0, 50, 0, 0, 0]"
    by (simp add: counter_fields_def delta_def mk_snap_def)
  have t: "spec_total (mk_snap 100 900 0) (mk_snap 120 950 0) = 70"
    by (simp add: spec_total_def counter_fields_def delta_def mk_snap_def)
  have f: "sample_cpu_usage (mk_snap 100 900 0) (mk_snap 120 950 0)
      = fp_div (double_of_u64 (70 - 50)) (double_of_u64 70)"
    by (simp add: q double_of_u64_def)
  have v: "dval (sample_cpu_usage (mk_snap 100 900 0) (mk_snap 120 950 0))
      = Some (5146971002709138 / 2 ^ 54)"
    by (simp add: q scenario_quotient)
  have r: "\<bar>5146971002709138 / 2 ^ 54 - 0.2857\<bar> < (0.00005 :: real)"
    by simp
  have w: "durable (write_iter (Writer_open []) x) = [x]" for x :: double
    by (simp add: write_iter_def Writer_open_def flush_def write_sample_def popped_def)
  from d t f v r w show ?thesis by blast
qed

text \<open>
  C10.  Every subtraction and sum of \<open>sample_cpu_usage\<close> is taken modulo \<open>2 ^ 64\<close>: for
  every pair of snapshots the result is the quotient of \<open>double(mod_busy)\<close> by
  \<open>double(mod_total)\<close>, where each of the seven deltas is
  \<open>(B.field + 2 ^ 64 - A.field) mod 2 ^ 64\<close>, the total is their sum modulo \<open>2 ^ 64\<close> and
  the numerator is \<open>total - idle_delta\<close> modulo \<open>2 ^ 64\<close>.  The delta of a field that did
  not decrease is its increase; the delta of a field whose second value is below the
  first is \<open>2 ^ 64\<close> minus the decrease.  The utilization can then lie outside the unit
  interval: when the idle counter falls from 1 to 0 and the user counter rises from 0
  to 2, the idle delta is \<open>2 ^ 64 - 1\<close>, the total wraps around to 1, the numerator to 2,
  and the result is 2.0.
\<close>

theorem delta_wraps_around:
  "sample_cpu_usage a b = fp_div (double_of_nat (mod_busy a b)) (double_of_nat (mod_total a b))
   \<and> unat (delta f a b) = mod_delta f a b
   \<and> (f a \<le> f b \<longrightarrow> mod_delta f a b = unat (f b) - unat (f a))
   \<and> (f b < f a \<longrightarrow> mod_delta f a b = 2 ^ 64 - (unat (f a) - unat (f b)))
   \<and> idle_time (mk_snap 2 0 0) < idle_time (mk_snap 0 1 0)
   \<and> mod_delta idle_time (mk_snap 0 1 0) (mk_snap 2 0 0) = 2 ^ 64 - 1
   \<and> mod_total (mk_snap 0 1 0) (mk_snap 2 0 0) = 1
   \<and> mod_busy (mk_snap 0 1 0) (mk_snap 2 0 0) = 2
   \<and> dval (sample_cpu_usage (mk_snap 0 1 0) (mk_snap 2 0 0)) = Some 2"
proof -
  have 0: "sample_cpu_usage a b
      = fp_div (double_of_nat (mod_busy a b)) (double_of_nat (mod_total a b))"
    by (simp only: sample_cpu_usage_total double_of_u64_def unat_busy unat_spec_total)
  have lt: "unat (f a) < 2 ^ 64" "unat (f b) < 2 ^ 64"
    using unsigned_less [of "f a"] unsigned_less [of "f b"] by simp_all
  have 1: "f a \<le> f b \<longrightarrow> mod_delta f a b = unat (f b) - unat (f a)"
  proof
    assume "f a \<le> f b"
    then have le: "unat (f a) \<le> unat (f b)" by (simp add: word_le_nat_alt)
    then have e: "unat (f b) + 2 ^ 64 - unat (f a) = (unat (f b) - unat (f a)) + 2 ^ 64"
      by simp
    have "unat (f b) - unat (f a) < 2 ^ 64" using lt by simp
    then have "(unat (f b) - unat (f a) + 2 ^ 64) mod 2 ^ 64 = unat (f b) - unat (f a)"
      by (simp only: mod_add_self2 mod_less)
    then show "mod_delta f a b = unat (f b) - unat (f a)"
      by (simp only: mod_delta_def e)
  qed
  have 2: "f b < f a \<longrightarrow> mod_delta f a b = 2 ^ 64 - (unat (f a) - unat (f b))"
  proof
    assume "f b < f a"
    then have l: "unat (f b) < unat (f a)" by (simp add: word_less_nat_alt)
    then have "unat (f b) + 2 ^ 64 - unat (f a) < 2 ^ 64" by simp
    then have "mod_delta f a b = unat (f b) + 2 ^ 64 - unat (f a)"
      by (simp add: mod_delta_def)
    then show "mod_delta f a b = 2 ^ 64 - (unat (f a) - unat (f b))"
      using l lt by simp
  qed
  have 4: "idle_time (mk_snap 2 0 0) < idle_time (mk_snap 0 1 0)"
    by (simp add: mk_snap_def)
  have 5: "mod_delta idle_time (mk_snap 0 1 0) (mk_snap 2 0 0) = 2 ^ 64 - 1"
    by (simp add: mod_delta_def mk_snap_def)
  have 6: "mod_total (mk_snap 0 1 0) (mk_snap 2 0 0) = 1"
    by (simp add: mod_total_def mod_delta_def counter_fields_def mk_snap_def)
  have 7: "mod_busy (mk_snap 0 1 0) (mk_snap 2 0 0) = 2"
    by (simp add: mod_busy_def 6 5)
  have "sample_cpu_usage (mk_snap 0 1 0) (mk_snap 2 0 0)
      = fp_div (double_of_nat 2) (double_of_nat 1)"
    by (simp add: sample_cpu_usage_def mk_snap_def double_of_u64_def)
  then have "sample_cpu_usage (mk_snap 0 1 0) (mk_snap 2 0 0) = Fin (2 ^ 52) (- 51)"
    by (simp only: quotient_2_1)
  then have 3: "dval (sample_cpu_usage (mk_snap 0 1 0) (mk_snap 2 0 0)) = Some 2"
    by simp
  from 0 unat_delta [of f a b] 1 2 3 4 5 6 7 show ?thesis by blast
qed

text \<open>
  Witness for C10: the idle counter falls from 5 to 3 and the user counter stays at 0.
\<close>

theorem delta_wraps_around_witness:
  "idle_time (mk_snap 0 3 0) < idle_time (mk_snap 0 5 0)
   \<and> mod_delta idle_time (mk_snap 0 5 0) (mk_snap 0 3 0) = 2 ^ 64 - 2
   \<and> user_time (mk_snap 0 5 0) \<le> user_time (mk_snap 0 3 0)
   \<and> mod_delta user_time (mk_snap 0 5 0) (mk_snap 0 3 0) = 0
   \<and> sample_cpu_usage (mk_snap 0 5 0) (mk_snap 0 3 0)
       = fp_div (double_of_nat (mod_busy (mk_snap 0 5 0) (mk_snap 0 3 0)))
                (double_of_nat (mod_total (mk_snap 0 5 0) (mk_snap 0 3 0)))"
proof -
  have h: "idle_time (mk_snap 0 3 0) < idle_time (mk_snap 0 5 0)"
    by (simp add: mk_snap_def)
  have g: "user_time (mk_snap 0 5 0) \<le> user_time (mk_snap 0 3 0)"
    by (simp add: mk_snap_def)
  from delta_wraps_around [of "mk_snap 0 5 0" "mk_snap 0 3 0" idle_time] h
  have 1: "mod_delta idle_time (mk_snap 0 5 0) (mk_snap 0 3 0)
      = 2 ^ 64 - (unat (idle_time (mk_snap 0 5 0)) - unat (idle_time (mk_snap 0 3 0)))"
    and 3: "sample_cpu_usage (mk_snap 0 5 0) (mk_snap 0 3 0)
       = fp_div (double_of_nat (mod_busy (mk_snap 0 5 0) (mk_snap 0 3 0)))
                (double_of_nat (mod_total (mk_snap 0 5 0) (mk_snap 0 3 0)))"
    by (blast+)
  from delta_wraps_around [of "mk_snap 0 5 0" "mk_snap 0 3 0" user_time] g
  have 2: "mod_delta user_time (mk_snap 0 5 0) (mk_snap 0 3 0)
      = unat (user_time (mk_snap 0 3 0)) - unat (user_time (mk_snap 0 5 0))"
    by blast
  from 1 have i2: "mod_delta idle_time (mk_snap 0 5 0) (mk_snap 0 3 0) = 2 ^ 64 - 2"
    by (simp add: mk_snap_def)
  from 2 have u2: "mod_delta user_time (mk_snap 0 5 0) (mk_snap 0 3 0) = 0"
    by (simp add: mk_snap_def)
  from h g i2 u2 3 show ?thesis by blast
qed

section \<open>Properties of the sample queue\<close>

lemma drain_closed: "closed q \<Longrightarrow> drain q = Some (items q)"
proof (induction "items q" arbitrary: q)
  case Nil
  then show ?case by (subst drain.simps) (simp add: pop_def)
next
  case (Cons x xs)
  from Cons(2) [symmetric] have p: "pop q = Popped x (q\<lparr>items := xs\<rparr>)"
    by (simp add: pop_def)
  have "drain (q\<lparr>items := xs\<rparr>) = Some (items (q\<lparr>items := xs\<rparr>))"
    using Cons(3) by (intro Cons(1)) simp_all
  then show ?case using Cons(2) [symmetric] by (subst drain.simps) (simp add: p)
qed

lemma exec_append:
  "exec cap (a @ b) q =
     (case exec cap a q of
        None \<Rightarrow> None
      | Some (rs, q1) \<Rightarrow> map_option (\<lambda>(rs', q2). (rs @ rs', q2)) (exec cap b q1))"
proof (induction a arbitrary: q)
  case Nil
  show ?case by (cases "exec cap b q") auto
next
  case (Cons x a)
  show ?case
  proof (cases x)
    case (Push y)
    then show ?thesis
      by (cases "push cap q y")
         (auto simp: Cons.IH option.map_comp comp_def case_prod_unfold split: option.splits)
  next
    case Pop
    then show ?thesis
      by (cases "pop q")
         (auto simp: Cons.IH option.map_comp comp_def case_prod_unfold split: option.splits)
  next
    case Close
    then show ?thesis
      by (auto simp: Cons.IH option.map_comp comp_def case_prod_unfold split: option.splits)
  qed
qed

lemma exec_open_invariant:
  "exec cap ops q = Some (rs, q') \<Longrightarrow> Close \<notin> set ops \<Longrightarrow> \<not> closed q \<Longrightarrow>
     items q @ pushed ops = gots rs @ items q' \<and> \<not> closed q'
     \<and> Refused QueueClosedError \<notin> set rs \<and> NoMore \<notin> set rs"
proof (induction ops arbitrary: q rs)
  case Nil
  then show ?case by simp
next
  case (Cons a ops)
  show ?case
  proof (cases a)
    case (Push x)
    with Cons.prems obtain rs1 where
      ex: "exec cap ops (q\<lparr>items := items q @ [x]\<rparr>) = Some (rs1, q')" and rs: "rs = Pushed # rs1"
      by (auto simp: push_def split: if_splits)
    from Cons.IH [OF ex] Cons.prems show ?thesis by (simp add: Push rs)
  next
    case Pop
    with Cons.prems obtain x xs rs1 where
      it: "items q = x # xs" and
      ex: "exec cap ops (q\<lparr>items := xs\<rparr>) = Some (rs1, q')" and rs: "rs = Got x # rs1"
      by (auto simp: pop_def split: list.splits if_splits)
    from Cons.IH [OF ex] Cons.prems show ?thesis by (simp add: Pop rs it)
  next
    case Close
    with Cons.prems show ?thesis by simp
  qed
qed

lemma exec_pushes:
  "\<not> closed q \<Longrightarrow> length (items q) + length xs \<le> cap \<Longrightarrow>
     exec cap (map Push xs) q = Some (replicate (length xs) Pushed, q\<lparr>items := items q @ xs\<rparr>)"
proof (induction xs arbitrary: q)
  case Nil
  then show ?case by simp
next
  case (Cons x xs)
  have "exec cap (map Push xs) (q\<lparr>items := items q @ [x]\<rparr>)
      = Some (replicate (length xs) Pushed,
          (q\<lparr>items := items q @ [x]\<rparr>)\<lparr>items := items (q\<lparr>items := items q @ [x]\<rparr>) @ xs\<rparr>)"
    using Cons.prems by (intro Cons.IH) simp_all
  then show ?case using Cons.prems by (simp add: push_def)
qed

lemma exec_pops:
  "items q = xs \<Longrightarrow>
     exec cap (replicate (length xs) Pop) q = Some (map Got xs, q\<lparr>items := []\<rparr>)"
proof (induction xs arbitrary: q)
  case Nil
  then show ?case by simp
next
  case (Cons x xs)
  have "exec cap (replicate (length xs) Pop) (q\<lparr>items := xs\<rparr>)
      = Some (map Got xs, (q\<lparr>items := xs\<rparr>)\<lparr>items := []\<rparr>)"
    by (intro Cons.IH) simp
  then show ?case using Cons.prems by (simp add: pop_def)
qed

lemma exec_closed:
  "closed q \<Longrightarrow> exec cap ops q = Some (rs, q') \<Longrightarrow> closed q' \<and> Pushed \<notin> set rs"
proof (induction ops arbitrary: q rs)
  case Nil
  then show ?case by simp
next
  case (Cons a ops)
  show ?case
  proof (cases a)
    case (Push x)
    with Cons.prems obtain rs1 where
      ex: "exec cap ops q = Some (rs1, q')" and rs: "rs = Refused QueueClosedError # rs1"
      by (auto simp: push_def)
    from Cons.IH [OF Cons.prems(1) ex] show ?thesis by (simp add: rs)
  next
    case Pop
    show ?thesis
    proof (cases "items q")
      case Nil
      with Pop Cons.prems obtain rs1 where
        ex: "exec cap ops q = Some (rs1, q')" and rs: "rs = NoMore # rs1"
        by (auto simp: pop_def)
      from Cons.IH [OF Cons.prems(1) ex] show ?thesis by (simp add: rs)
    next
      case (Cons x xs)
      with Pop Cons.prems obtain rs1 where
        ex: "exec cap ops (q\<lparr>items := xs\<rparr>) = Some (rs1, q')" and rs: "rs = Got x # rs1"
        by (auto simp: pop_def)
      have "closed (q\<lparr>items := xs\<rparr>)" using Cons.prems(1) by simp
      from Cons.IH [OF this ex] show ?thesis by (simp add: rs)
    qed
  next
    case Close
    with Cons.prems obtain rs1 where
      ex: "exec cap ops (close q) = Some (rs1, q')" and rs: "rs = ClosedOk # rs1"
      by auto
    have "closed (close q)" by (simp add: close_def)
    from Cons.IH [OF this ex] show ?thesis by (simp add: rs)
  qed
qed

section \<open>The claims about the sample queue\<close>

text \<open>
  C6, on the queue of the specification.  Three samples pushed into a new
  queue of capacity at least three are returned by three pops in the order in which
  they were pushed, and the queue is empty again.  The same holds for every sequence of
  samples that fits into the queue: the pops return exactly the pushed sequence, nothing
  reordered, repeated or dropped.
\<close>

theorem fifo_order:
  "(3 \<le> cap \<longrightarrow>
      exec cap [Push (s1 :: 's), Push s2, Push s3, Pop, Pop, Pop] new_queue
        = Some ([Pushed, Pushed, Pushed, Got s1, Got s2, Got s3], new_queue))
   \<and> (length (xs :: 's list) \<le> cap \<longrightarrow>
      exec cap (map Push xs @ replicate (length xs) Pop) new_queue
        = Some (replicate (length xs) Pushed @ map Got xs, new_queue))"
proof -
  have gen: "exec cap (map Push ys @ replicate (length ys) Pop) new_queue
        = Some (replicate (length ys) Pushed @ map Got ys, new_queue)"
    if "length ys \<le> cap" for ys :: "'s list"
  proof -
    have "exec cap (map Push ys) new_queue
        = Some (replicate (length ys) Pushed, new_queue\<lparr>items := items new_queue @ ys\<rparr>)"
      using that by (intro exec_pushes) (simp_all add: new_queue_def)
    moreover have "exec cap (replicate (length ys) Pop) (new_queue\<lparr>items := items new_queue @ ys\<rparr>)
        = Some (map Got ys, (new_queue\<lparr>items := items new_queue @ ys\<rparr>)\<lparr>items := []\<rparr>)"
      by (intro exec_pops) (simp add: new_queue_def)
    ultimately show ?thesis by (simp add: exec_append new_queue_def)
  qed
  from gen [of "[s1, s2, s3]"] gen [of xs] show ?thesis by simp
qed

text \<open>Witness for C6: the samples 1, 2, 3 and a queue of capacity 3.\<close>

theorem fifo_order_witness:
  "(3::nat) \<le> 3
   \<and> exec 3 [Push (1::nat), Push 2, Push 3, Pop, Pop, Pop] new_queue
       = Some ([Pushed, Pushed, Pushed, Got 1, Got 2, Got 3], new_queue)"
  using fifo_order [of 3 "1::nat" 2 3 "[]"] by simp

text \<open>
  C7, on the queue of the specification.  Take any run of pushes and pops
  on a new queue, in any interleaving, followed by \<open>close()\<close>.  Then every push of the run
  succeeded, no pop of the run returned the sentinel, and the pops that follow return
  the samples still buffered and then the sentinel "no more data": the samples returned
  before the sentinel are exactly the pushed ones, in the order of the pushes, so there
  are exactly N of them.
\<close>

theorem no_loss:
  "Close \<notin> set pre \<Longrightarrow> exec cap (pre @ [Close]) new_queue = Some (rs, q) \<Longrightarrow>
     \<exists>rest q'. drain q = Some rest
       \<and> exec cap (replicate (length rest) Pop @ [Pop]) q = Some (map Got rest @ [NoMore], q')
       \<and> gots rs @ rest = pushed pre
       \<and> length (gots rs) + length rest = length (pushed pre)
       \<and> NoMore \<notin> set rs \<and> Refused QueueClosedError \<notin> set rs"
proof -
  assume nc: "Close \<notin> set pre" and ex: "exec cap (pre @ [Close]) new_queue = Some (rs, q)"
  from ex obtain rs1 q1 where
    ex1: "exec cap pre new_queue = Some (rs1, q1)" and rs: "rs = rs1 @ [ClosedOk]"
    and q: "q = close q1"
    by (auto simp: exec_append split: option.splits)
  have "\<not> closed (new_queue :: 'a queue)" by (simp add: new_queue_def)
  from exec_open_invariant [OF ex1 nc this]
  have inv: "pushed pre = gots rs1 @ items q1" and nm: "NoMore \<notin> set rs1"
    and nr: "Refused QueueClosedError \<notin> set rs1"
    by (simp_all add: new_queue_def)
  have g: "gots (rs1 @ [ClosedOk]) = gots rs1"
    by (induction rs1 rule: gots.induct) simp_all
  have cl: "closed q" and it: "items q = items q1" by (simp_all add: q close_def)
  have d: "drain q = Some (items q1)" using drain_closed [OF cl] it by simp
  have "exec cap (replicate (length (items q1)) Pop) q = Some (map Got (items q1), q\<lparr>items := []\<rparr>)"
    using it by (rule exec_pops)
  moreover have "exec cap [Pop] (q\<lparr>items := []\<rparr>) = Some ([NoMore], q\<lparr>items := []\<rparr>)"
    using cl by (simp add: pop_def)
  ultimately have p: "exec cap (replicate (length (items q1)) Pop @ [Pop]) q
      = Some (map Got (items q1) @ [NoMore], q\<lparr>items := []\<rparr>)"
    by (simp add: exec_append)
  have len: "length (gots rs) + length (items q1) = length (pushed pre)"
    by (simp add: inv rs g)
  from d p inv nm nr len show ?thesis by (auto simp: rs g)
qed

text \<open>
  Witness for C7: capacity 2, three pushes, two of the pops before \<open>close()\<close>, so that
  one sample is still buffered when the queue is closed.
\<close>

theorem no_loss_witness:
  "Close \<notin> set [Push (1::nat), Pop, Push 2, Push 3, Pop]
   \<and> exec 2 ([Push (1::nat), Pop, Push 2, Push 3, Pop] @ [Close]) new_queue
       = Some ([Pushed, Got 1, Pushed, Pushed, Got 2, ClosedOk], \<lparr>items = [3], closed = True\<rparr>)
   \<and> (\<exists>rest q'. drain \<lparr>items = [3::nat], closed = True\<rparr> = Some rest
        \<and> gots [Pushed, Got 1, Pushed, Pushed, Got 2, ClosedOk] @ rest
            = pushed [Push (1::nat), Pop, Push 2, Push 3, Pop])"
proof -
  have h1: "Close \<notin> set [Push (1::nat), Pop, Push 2, Push 3, Pop]" by simp
  have h2: "exec 2 ([Push (1::nat), Pop, Push 2, Push 3, Pop] @ [Close]) new_queue
       = Some ([Pushed, Got 1, Pushed, Pushed, Got 2, ClosedOk], \<lparr>items = [3], closed = True\<rparr>)"
    by (simp add: new_queue_def push_def pop_def close_def)
  from no_loss [OF h1 h2] h1 h2 show ?thesis by blast
qed

text \<open>
  C8, on the queue of the specification.  A push on a closed queue fails
  with \<open>QueueClosedError\<close>; the queue stays closed whatever calls follow \<open>close()\<close>, so no
  push after it succeeds.  A second \<open>close()\<close> changes nothing, and \<open>close()\<close> leaves the
  buffered samples as they are: all of them are still returned by the pops that follow.
\<close>

theorem push_after_close_fails:
  "push cap (close q) x = PushFailed QueueClosedError
   \<and> (closed q \<longrightarrow> push cap q x = PushFailed QueueClosedError)
   \<and> (exec cap ops (close q) = Some (rs, q') \<longrightarrow> closed q' \<and> Pushed \<notin> set rs)
   \<and> close (close q) = close q
   \<and> items (close q) = items q
   \<and> drain (close q) = Some (items q)"
proof -
  have c: "closed (close q)" by (simp add: close_def)
  have "exec cap ops (close q) = Some (rs, q') \<longrightarrow> closed q' \<and> Pushed \<notin> set rs"
    using exec_closed [OF c] by blast
  moreover have "drain (close q) = Some (items q)"
    using drain_closed [OF c] by (simp add: close_def)
  ultimately show ?thesis by (simp add: push_def close_def)
qed

text \<open>
  Witness for C8: a queue that holds the samples 1 and 2 is closed; the push of 3 is
  refused and the two pops return 1 and 2.
\<close>

theorem push_after_close_fails_witness:
  "closed (close \<lparr>items = [1::nat, 2], closed = False\<rparr>)
   \<and> push 5 (close \<lparr>items = [1::nat, 2], closed = False\<rparr>) 3 = PushFailed QueueClosedError
   \<and> exec 5 [Push 3, Pop, Pop] (close \<lparr>items = [1::nat, 2], closed = False\<rparr>)
       = Some ([Refused QueueClosedError, Got 1, Got 2], \<lparr>items = [], closed = True\<rparr>)
   \<and> closed \<lparr>items = [] :: nat list, closed = True\<rparr>
   \<and> Pushed \<notin> set [Refused QueueClosedError, Got (1::nat), Got 2]"
proof -
  have h: "exec 5 [Push 3, Pop, Pop] (close \<lparr>items = [1::nat, 2], closed = False\<rparr>)
       = Some ([Refused QueueClosedError, Got 1, Got 2], \<lparr>items = [], closed = True\<rparr>)"
    by (simp add: push_def pop_def close_def)
  from push_after_close_fails [of 5 "\<lparr>items = [1::nat, 2], closed = False\<rparr>" 3
      "[Push 3, Pop, Pop]" "[Refused QueueClosedError, Got 1, Got 2]"
      "\<lparr>items = [], closed = True\<rparr>"] h
  show ?thesis by (simp add: close_def)
qed

section \<open>Properties of the two loops\<close>

lemma write_loop_not_Some: "write_loop pops i c \<noteq> Some y"
proof
  assume "write_loop pops i c = Some y"
  then show False
    by (rule write_loop.raw_induct [rotated, where P = "\<lambda>_ _ _ _. False"]) blast
qed

lemma write_loop_None: "write_loop pops i c = None"
  using write_loop_not_Some [of pops i c] by (cases "write_loop pops i c") auto

lemma main_loop_not_Some: "main_loop samples i tr \<noteq> Some y"
proof
  assume "main_loop samples i tr = Some y"
  then show False
    by (rule main_loop.raw_induct [rotated, where P = "\<lambda>_ _ _ _. False"]) blast
qed

lemma main_loop_None: "main_loop samples i tr = None"
  using main_loop_not_Some [of samples i tr] by (cases "main_loop samples i tr") auto

lemma write_steps_snoc: "write_steps (ds @ [d]) c = write_iter (write_steps ds c) d"
  by (simp add: write_steps_def)

lemma write_iter_fields:
  "pending c = [] \<Longrightarrow>
     pending (write_iter c d) = [] \<and> durable (write_iter c d) = durable c @ [d]
     \<and> calls (write_iter c d) = calls c @ [CallPop, CallWriteSample d, CallFlush]"
  by (simp add: write_iter_def flush_def write_sample_def popped_def)

lemma write_steps_fields:
  "pending (write_steps ds (Writer_open old)) = []
   \<and> durable (write_steps ds (Writer_open old)) = old @ ds
   \<and> calls (write_steps ds (Writer_open old))
       = concat (map (\<lambda>d. [CallPop, CallWriteSample d, CallFlush]) ds)"
proof (induction ds rule: rev_induct)
  case Nil
  show ?case by (simp add: write_steps_def Writer_open_def)
next
  case (snoc d ds)
  then show ?case
    using write_iter_fields [of "write_steps ds (Writer_open old)" d]
    by (simp add: write_steps_snoc)
qed

lemma flush_follows_write:
  "i < length (concat (map (\<lambda>d. [CallPop, CallWriteSample d, CallFlush]) ds)) \<Longrightarrow>
   concat (map (\<lambda>d. [CallPop, CallWriteSample d, CallFlush]) ds) ! i = CallWriteSample x \<Longrightarrow>
     Suc i < length (concat (map (\<lambda>d. [CallPop, CallWriteSample d, CallFlush]) ds))
     \<and> concat (map (\<lambda>d. [CallPop, CallWriteSample d, CallFlush]) ds) ! Suc i = CallFlush"
proof (induction ds arbitrary: i)
  case Nil
  then show ?case by simp
next
  case (Cons d ds)
  let ?t = "concat (map (\<lambda>d. [CallPop, CallWriteSample d, CallFlush]) ds)"
  consider "i = 0" | "i = 1" | "i = 2" | j where "i = 3 + j"
    by (metis One_nat_def Suc_1 add_Suc add_cancel_left_left less_Suc_eq_0_disj
        not_less_eq numeral_3_eq_3 less_imp_Suc_add not_less)
  then show ?case
  proof cases
    case 1
    with Cons.prems show ?thesis by simp
  next
    case 2
    then show ?thesis by simp
  next
    case 3
    with Cons.prems show ?thesis by (simp add: numeral_2_eq_2)
  next
    case 4
    with Cons.prems have "j < length ?t" and "?t ! j = CallWriteSample x"
      by (simp_all add: numeral_3_eq_3)
    from Cons.IH [OF this] 4 show ?thesis by (simp add: numeral_3_eq_3)
  qed
qed

lemma pushes_append: "pushes (tr @ tr') = pushes tr @ pushes tr'"
  by (induction tr rule: pushes.induct) simp_all

lemma pushes_main_steps: "pushes (main_steps ds tr) = pushes tr @ ds"
proof (induction ds rule: rev_induct)
  case Nil
  show ?case by (simp add: main_steps_def)
next
  case (snoc d ds)
  then show ?case by (simp add: main_steps_def main_iter_def pushes_append)
qed

section \<open>The claims about the two loops\<close>

text \<open>
  C9.  After the iterations of the consumer loop that popped the samples
  \<open>ds\<close>, no record is pending, the log holds \<open>ds\<close> after what it held before, and the
  calls of the consumer are, for each sample in turn, pop, write_sample, flush: every
  call of write_sample is followed at once by a call of flush.
\<close>

theorem flush_after_every_write:
  "pending (write_steps ds (Writer_open old)) = []
   \<and> durable (write_steps ds (Writer_open old)) = old @ ds
   \<and> calls (write_steps ds (Writer_open old))
       = concat (map (\<lambda>d. [CallPop, CallWriteSample d, CallFlush]) ds)
   \<and> (\<forall>i x. i < length (calls (write_steps ds (Writer_open old)))
         \<longrightarrow> calls (write_steps ds (Writer_open old)) ! i = CallWriteSample x
         \<longrightarrow> Suc i < length (calls (write_steps ds (Writer_open old)))
             \<and> calls (write_steps ds (Writer_open old)) ! Suc i = CallFlush)"
  using write_steps_fields [of ds old] flush_follows_write [of _ ds] by simp

text \<open>Witness for C9: two iterations on a log that holds one record.\<close>

theorem flush_after_every_write_witness:
  "calls (write_steps [8, 9] (Writer_open [7::nat]))
     = [CallPop, CallWriteSample 8, CallFlush, CallPop, CallWriteSample 9, CallFlush]
   \<and> (4::nat) < length (calls (write_steps [8, 9] (Writer_open [7::nat])))
   \<and> calls (write_steps [8, 9] (Writer_open [7::nat])) ! 4 = CallWriteSample 9
   \<and> calls (write_steps [8, 9] (Writer_open [7::nat])) ! Suc 4 = CallFlush
   \<and> durable (write_steps [8, 9] (Writer_open [7::nat])) = [7, 8, 9]"
proof -
  have c: "calls (write_steps [8, 9] (Writer_open [7::nat]))
     = [CallPop, CallWriteSample 8, CallFlush, CallPop, CallWriteSample 9, CallFlush]"
    by (simp add: write_steps_def write_iter_def flush_def write_sample_def popped_def
        Writer_open_def)
  have h1: "(4::nat) < length (calls (write_steps [8, 9] (Writer_open [7::nat])))"
    by (simp add: c)
  have h2: "calls (write_steps [8, 9] (Writer_open [7::nat])) ! 4 = CallWriteSample 9"
    by (simp add: c)
  from flush_after_every_write [of "[8, 9]" "[7::nat]"] h1 h2
  have "calls (write_steps [8, 9] (Writer_open [7::nat])) ! Suc 4 = CallFlush
      \<and> durable (write_steps [8, 9] (Writer_open [7::nat])) = [7, 8, 9]"
    by (metis append_Cons append_Nil)
  with c h1 h2 show ?thesis by blast
qed

text \<open>
  C3.  The claim: once shutdown is signalled the producer issues no further
  push, and the consumer drains the queue and calls \<open>close()\<close> on the Writer exactly once
  before the process exits.  The code has no shutdown signal.  Both loops are
  \<^verbatim>\<open>while(true)\<close> without an exit: neither \<open>write\<close> nor \<open>main\<close> returns, each iteration of
  the producer issues one push, and the consumer never calls \<open>close()\<close> on the Writer.
\<close>

theorem no_shutdown_protocol:
  "write_consumer pops old = None
   \<and> main samples = None
   \<and> pushes (main_steps ds []) = ds
   \<and> CallClose \<notin> set (calls (write_steps ds' (Writer_open old)))"
proof -
  have "calls (write_steps ds' (Writer_open old))
      = concat (map (\<lambda>d. [CallPop, CallWriteSample d, CallFlush]) ds')"
    using write_steps_fields [of ds' old] by simp
  then have "CallClose \<notin> set (calls (write_steps ds' (Writer_open old)))"
    by auto
  then show ?thesis
    by (simp add: write_consumer_def main_def write_loop_None main_loop_None
        pushes_main_steps)
qed

text \<open>
  Counterexample to C3 as stated, where the \<open>i\<close>-th sample is the number \<open>i\<close>: the
  consumer and the producer do not return, two iterations of the producer issue two
  pushes whenever a shutdown was requested, and after two iterations the consumer has
  not called \<open>close()\<close>.
\<close>

theorem no_shutdown_counterexample:
  "write_consumer (id :: nat \<Rightarrow> nat) [] = None
   \<and> main (id :: nat \<Rightarrow> nat) = None
   \<and> pushes (main_steps [0, 1 :: nat] []) = [0, 1]
   \<and> CallClose \<notin> set (calls (write_steps [0, 1 :: nat] (Writer_open [])))"
proof -
  have "pushes (main_steps [0, 1 :: nat] []) = [0, 1]"
    by (simp add: main_steps_def main_iter_def)
  moreover have "CallClose \<notin> set (calls (write_steps [0, 1 :: nat] (Writer_open [])))"
    by (simp add: write_steps_def write_iter_def flush_def write_sample_def popped_def
        Writer_open_def)
  ultimately show ?thesis
    by (simp add: write_consumer_def main_def write_loop_None main_loop_None)
qed

end
